theory Spec2Isabelle
  imports Main
begin

section \<open>JavaScript strings\<close>

text \<open>
  A JavaScript string is a sequence of UTF-16 code units. The model covers the strings
  whose code units are all below 256: one \<^typ>\<open>char\<close> is one code unit, read as a
  Latin-1 code point, so \<^const>\<open>length\<close> is the \<^verbatim>\<open>.length\<close> of the source.

  Strings that leave this range are taken up in the section on strings beyond Latin-1.

  \<^verbatim>\<open>String.prototype.trim\<close> and the regular expression class \<^verbatim>\<open>\s\<close> use the same
  set: WhiteSpace and LineTerminator of ECMAScript. Below 256 these are TAB, LF, VT, FF,
  CR, SPACE and NO-BREAK SPACE.
\<close>

definition isWhiteSpace :: "char \<Rightarrow> bool" where
  "isWhiteSpace c =
     (c \<in> set [CHR 0x09, CHR 0x0A, CHR 0x0B, CHR 0x0C, CHR 0x0D, CHR 0x20, CHR 0xA0])"

definition trim :: "string \<Rightarrow> string" where
  "trim s = rev (dropWhile isWhiteSpace (rev (dropWhile isWhiteSpace s)))"

text \<open>
  \<^verbatim>\<open>String.prototype.toLowerCase\<close>: below 256 the upper-case letters are A-Z (65-90)
  and the Latin-1 letters 192-222 without the multiplication sign 215; each has its
  lower-case letter 32 places higher.
\<close>

definition toLowerCase_char :: "char \<Rightarrow> char" where
  "toLowerCase_char c =
     (let n = (of_char c :: nat) in
      if (65 \<le> n \<and> n \<le> 90) \<or> (192 \<le> n \<and> n \<le> 222 \<and> n \<noteq> 215)
      then char_of (n + 32) else c)"

definition toLowerCase :: "string \<Rightarrow> string" where
  "toLowerCase s = map toLowerCase_char s"

text \<open>\<^verbatim>\<open>s.includes(sub)\<close>: \<open>sub\<close> occurs in \<open>s\<close> as a contiguous substring.\<close>

fun includes_str :: "string \<Rightarrow> string \<Rightarrow> bool" where
  "includes_str [] sub = (sub = [])"
| "includes_str (c # cs) sub = (take (length sub) (c # cs) = sub \<or> includes_str cs sub)"

section \<open>Regular expressions\<close>

text \<open>
  The one regular expression of the source, \<^verbatim>\<open>/^[^\s@]+@[^\s@]+\.[^\s@]+$/\<close>, is
  anchored at both ends and is a sequence of literal characters and of character classes
  under \<^verbatim>\<open>+\<close>. \<open>test\<close> tries, as the backtracking matcher of JavaScript does, the
  longer repetition first; its boolean result is whether the whole string matches.
\<close>

datatype char_class = NotSpaceNorAt

fun in_class :: "char_class \<Rightarrow> char \<Rightarrow> bool" where
  "in_class NotSpaceNorAt c = (\<not> isWhiteSpace c \<and> c \<noteq> CHR ''@'')"

datatype regex_item = Lit char | Many1 char_class

fun test :: "regex_item list \<Rightarrow> string \<Rightarrow> bool" where
  "test [] s = (s = [])"
| "test (Lit c # r) [] = False"
| "test (Lit c # r) (x # xs) = (x = c \<and> test r xs)"
| "test (Many1 p # r) [] = False"
| "test (Many1 p # r) (x # xs) = (in_class p x \<and> (test (Many1 p # r) xs \<or> test r xs))"

section \<open>The Email value object\<close>

text \<open>
  A thrown \<^verbatim>\<open>Error\<close> is a value carrying its message. The two messages of
  \<^verbatim>\<open>email.ts\<close> are the rejections \<open>InvalidFormat\<close> and \<open>Blocked\<close>; each carries the
  string the source interpolates into it.
\<close>

datatype error = Error string

definition InvalidFormat :: "string \<Rightarrow> error" where
  "InvalidFormat email = Error (''Invalid email format: '' @ email)"

definition Blocked :: "string \<Rightarrow> error" where
  "Blocked email = Error (''Email is blocked or blacklisted: '' @ email)"

text \<open>
  Modelled from the spec: the base class \<^verbatim>\<open>ValueObject<string>\<close> of
  \<^verbatim>\<open>shared/types/common.js\<close> is not among the sources; it holds the value passed
  to \<^verbatim>\<open>super\<close>, immutable and compared structurally.
\<close>

datatype Email = Email (getValue: string)

definition EMAIL_REGEX :: "regex_item list" where
  "EMAIL_REGEX =
     [Many1 NotSpaceNorAt, Lit (CHR ''@''), Many1 NotSpaceNorAt, Lit (CHR ''.''),
      Many1 NotSpaceNorAt]"

definition hasConsecutiveDots :: "string \<Rightarrow> bool" where
  "hasConsecutiveDots email = includes_str email ''..''"

definition isValid :: "string \<Rightarrow> bool" where
  "isValid email =
     (length email > 0 \<and> length email \<le> 254 \<and> \<not> hasConsecutiveDots email \<and>
      test EMAIL_REGEX email)"

text \<open>The constructor \<^verbatim>\<open>new Email(email)\<close>: \<open>Inl\<close> is the thrown error.\<close>

definition Email_new :: "string \<Rightarrow> error + Email" where
  "Email_new email =
     (let normalizedEmail = trim email in
      if \<not> isValid normalizedEmail then Inl (InvalidFormat email)
      else Inr (Email (toLowerCase normalizedEmail)))"

definition create :: "string \<Rightarrow> error + Email" where
  "create email = Email_new email"

section \<open>Asynchronous methods\<close>

text \<open>
  An asynchronous method is a function of the state of the world it runs in: it returns
  the promise's outcome (\<open>Inl\<close> a rejection, \<open>Inr\<close> the value) and the state it leaves.
  \<open>async_bind\<close> is \<^verbatim>\<open>await\<close> followed by the rest of the method: a rejection ends the
  method with that rejection. \<open>try_catch\<close> is \<^verbatim>\<open>try { ... } catch (error) { ... }\<close>.
\<close>

type_synonym ('w, 'a) async = "'w \<Rightarrow> (error + 'a) \<times> 'w"

definition async_return :: "'a \<Rightarrow> ('w, 'a) async" where
  "async_return a w = (Inr a, w)"

definition async_throw :: "error \<Rightarrow> ('w, 'a) async" where
  "async_throw e w = (Inl e, w)"

definition async_bind :: "('w, 'a) async \<Rightarrow> ('a \<Rightarrow> ('w, 'b) async) \<Rightarrow> ('w, 'b) async" where
  "async_bind m f w = (case m w of (Inl e, w') \<Rightarrow> (Inl e, w') | (Inr a, w') \<Rightarrow> f a w')"

definition try_catch :: "('w, 'a) async \<Rightarrow> (error \<Rightarrow> ('w, 'a) async) \<Rightarrow> ('w, 'a) async" where
  "try_catch body handler w =
     (case body w of (Inl e, w') \<Rightarrow> handler e w' | (Inr a, w') \<Rightarrow> (Inr a, w'))"

definition from_sync :: "error + 'a \<Rightarrow> ('w, 'a) async" where
  "from_sync r w = (r, w)"

text \<open>\<^verbatim>\<open>AntiSpamPort\<close> has the one method \<^verbatim>\<open>isBlocked(email): Promise<boolean>\<close>.\<close>

type_synonym 'w AntiSpamPort = "string \<Rightarrow> ('w, bool) async"

definition createWithAntiSpam :: "string \<Rightarrow> 'w AntiSpamPort \<Rightarrow> ('w, Email) async" where
  "createWithAntiSpam email antiSpamService =
     async_bind (antiSpamService email) (\<lambda>blocked.
       if blocked then async_throw (Blocked email) else from_sync (Email_new email))"

section \<open>The Valkey set store\<close>

text \<open>
  Modelled from the spec: the store protocol. The client \<^verbatim>\<open>GlideClient\<close> is an external
  collaborator; the repository uses its five set commands. The state of the store is the
  set held under each key (no members when the key is absent; the members in the order
  \<^verbatim>\<open>SMEMBERS\<close> replies them, without duplicates) and the outcomes of the round trips to
  come: \<open>Some e\<close> is a round trip that fails, the command rejecting with \<open>e\<close> and leaving
  the sets as they are; when the list is used up every round trip is answered.
\<close>

record valkey =
  faults :: "error option list"
  sets :: "string \<Rightarrow> string list"

definition round_trip :: "(string \<Rightarrow> string list) \<Rightarrow> 'a \<Rightarrow> (valkey, 'a) async" where
  "round_trip sets' reply st =
     (case faults st of
        [] \<Rightarrow> (Inr reply, st\<lparr>sets := sets'\<rparr>)
      | None # fs \<Rightarrow> (Inr reply, st\<lparr>faults := fs, sets := sets'\<rparr>)
      | Some e # fs \<Rightarrow> (Inl e, st\<lparr>faults := fs\<rparr>))"

definition sismember :: "string \<Rightarrow> string \<Rightarrow> (valkey, bool) async" where
  "sismember key member st = round_trip (sets st) (member \<in> set (sets st key)) st"

definition sadd :: "string \<Rightarrow> string list \<Rightarrow> (valkey, nat) async" where
  "sadd key members st =
     (let old = sets st key;
          new = foldl (\<lambda>xs m. if m \<in> set xs then xs else xs @ [m]) old members
      in round_trip ((sets st)(key := new)) (length new - length old) st)"

definition srem :: "string \<Rightarrow> string list \<Rightarrow> (valkey, nat) async" where
  "srem key members st =
     (let old = sets st key;
          new = filter (\<lambda>m. m \<notin> set members) old
      in round_trip ((sets st)(key := new)) (length old - length new) st)"

definition smembers :: "string \<Rightarrow> (valkey, string list) async" where
  "smembers key st = round_trip (sets st) (sets st key) st"

definition del :: "string list \<Rightarrow> (valkey, nat) async" where
  "del keys st =
     round_trip (\<lambda>k. if k \<in> set keys then [] else sets st k)
       (length (filter (\<lambda>k. sets st k \<noteq> []) (remdups keys))) st"

section \<open>The banned-email repositories\<close>

text \<open>The port \<^verbatim>\<open>BannedEmailRepository\<close>, over the state \<open>'s\<close> its implementation keeps.\<close>

record 's BannedEmailRepository =
  isBanned :: "string \<Rightarrow> ('s, bool) async"
  ban :: "string \<Rightarrow> ('s, unit) async"
  unban :: "string \<Rightarrow> ('s, unit) async"
  getAllBanned :: "('s, string list) async"
  clear :: "('s, unit) async"

text \<open>
  \<^verbatim>\<open>ValkeyBannedEmailRepository\<close>: the object holds its key; the client it holds is the
  connection to the store, whose state the methods pass on. Its methods carry the prefix
  \<open>Valkey_\<close>, those of the in-memory repository the prefix \<open>InMemory_\<close>; the bare names
  are the methods of the port. The client decodes the
  replies as strings, so the filter \<^verbatim>\<open>typeof email === 'string'\<close> of \<^verbatim>\<open>getAllBanned\<close>
  keeps every member.
\<close>

record ValkeyBannedEmailRepository =
  setKey :: string

definition ValkeyBannedEmailRepository_new :: "string option \<Rightarrow> ValkeyBannedEmailRepository" where
  "ValkeyBannedEmailRepository_new key =
     \<lparr>setKey = (case key of None \<Rightarrow> ''banned:emails'' | Some k \<Rightarrow> k)\<rparr>"

definition Valkey_isBanned :: "ValkeyBannedEmailRepository \<Rightarrow> string \<Rightarrow> (valkey, bool) async" where
  "Valkey_isBanned this email =
     async_bind (sismember (setKey this) (toLowerCase email)) (\<lambda>result. async_return result)"

definition Valkey_ban :: "ValkeyBannedEmailRepository \<Rightarrow> string \<Rightarrow> (valkey, unit) async" where
  "Valkey_ban this email =
     async_bind (sadd (setKey this) [toLowerCase email]) (\<lambda>_. async_return ())"

definition Valkey_unban :: "ValkeyBannedEmailRepository \<Rightarrow> string \<Rightarrow> (valkey, unit) async" where
  "Valkey_unban this email =
     async_bind (srem (setKey this) [toLowerCase email]) (\<lambda>_. async_return ())"

definition Valkey_getAllBanned :: "ValkeyBannedEmailRepository \<Rightarrow> (valkey, string list) async" where
  "Valkey_getAllBanned this =
     async_bind (smembers (setKey this)) (\<lambda>members.
       async_return (map toLowerCase (filter (\<lambda>email. True) members)))"

definition Valkey_clear :: "ValkeyBannedEmailRepository \<Rightarrow> (valkey, unit) async" where
  "Valkey_clear this = async_bind (del [setKey this]) (\<lambda>_. async_return ())"

definition Valkey_repository :: "ValkeyBannedEmailRepository \<Rightarrow> valkey BannedEmailRepository" where
  "Valkey_repository this =
     \<lparr>isBanned = Valkey_isBanned this, ban = Valkey_ban this, unban = Valkey_unban this,
      getAllBanned = Valkey_getAllBanned this, clear = Valkey_clear this\<rparr>"

text \<open>\<^verbatim>\<open>InMemoryBannedEmailRepository\<close>: its state is the private set \<^verbatim>\<open>bannedEmails\<close>.\<close>

record InMemoryBannedEmailRepository =
  bannedEmails :: "string list"

definition InMemory_isBanned :: "string \<Rightarrow> (InMemoryBannedEmailRepository, bool) async" where
  "InMemory_isBanned email = async_throw (Error ''Method not implemented.'')"

definition InMemory_ban :: "string \<Rightarrow> (InMemoryBannedEmailRepository, unit) async" where
  "InMemory_ban email = async_throw (Error ''Method not implemented.'')"

definition InMemory_unban :: "string \<Rightarrow> (InMemoryBannedEmailRepository, unit) async" where
  "InMemory_unban email = async_throw (Error ''Method not implemented.'')"

definition InMemory_getAllBanned :: "(InMemoryBannedEmailRepository, string list) async" where
  "InMemory_getAllBanned = async_throw (Error ''Method not implemented.'')"

definition InMemory_clear :: "(InMemoryBannedEmailRepository, unit) async" where
  "InMemory_clear this = (Inr (), this\<lparr>bannedEmails := []\<rparr>)"

definition InMemory_repository :: "InMemoryBannedEmailRepository BannedEmailRepository" where
  "InMemory_repository =
     \<lparr>isBanned = InMemory_isBanned, ban = InMemory_ban, unban = InMemory_unban,
      getAllBanned = InMemory_getAllBanned, clear = InMemory_clear\<rparr>"

section \<open>The anti-spam adapter\<close>

text \<open>
  \<^verbatim>\<open>RepositoryAntiSpamAdapter\<close> runs in a process that has a console and the state of
  the injected repository. \<^verbatim>\<open>console.error\<close> appends its arguments to the console.
\<close>

record 's process =
  console :: "(string \<times> error) list"
  repository :: 's

definition console_error :: "string \<Rightarrow> error \<Rightarrow> ('s process, unit) async" where
  "console_error msg e w = (Inr (), w\<lparr>console := console w @ [(msg, e)]\<rparr>)"

definition in_repository :: "('s, 'a) async \<Rightarrow> ('s process, 'a) async" where
  "in_repository m w = (case m (repository w) of (r, s') \<Rightarrow> (r, w\<lparr>repository := s'\<rparr>))"

definition isBlocked :: "'s BannedEmailRepository \<Rightarrow> 's process AntiSpamPort" where
  "isBlocked bannedEmailRepository email =
     try_catch (in_repository (isBanned bannedEmailRepository email))
       (\<lambda>error. async_bind (console_error ''Failed to check banned email list:'' error)
          (\<lambda>_. async_return False))"

section \<open>Sequences of repository calls\<close>

datatype repo_call = IsBanned string | Ban string | Unban string | GetAllBanned | Clear

fun call :: "'s BannedEmailRepository \<Rightarrow> repo_call \<Rightarrow> 's \<Rightarrow> 's" where
  "call repo (IsBanned email) s = snd (isBanned repo email s)"
| "call repo (Ban email) s = snd (ban repo email s)"
| "call repo (Unban email) s = snd (unban repo email s)"
| "call repo GetAllBanned s = snd (getAllBanned repo s)"
| "call repo Clear s = snd (clear repo s)"

fun calls :: "'s BannedEmailRepository \<Rightarrow> repo_call list \<Rightarrow> 's \<Rightarrow> 's" where
  "calls repo [] s = s"
| "calls repo (c # cs) s = calls repo cs (call repo c s)"

text \<open>The next \<open>n\<close> round trips to the store are answered.\<close>

fun answered :: "nat \<Rightarrow> error option list \<Rightarrow> bool" where
  "answered 0 fs = True"
| "answered (Suc n) [] = True"
| "answered (Suc n) (f # fs) = (f = None \<and> answered n fs)"

text \<open>The members of a set are lower-cased, each once.\<close>

definition lower_cased :: "string list \<Rightarrow> bool" where
  "lower_cased xs = (distinct xs \<and> list_all (\<lambda>m. toLowerCase m = m) xs)"

section \<open>Concrete states\<close>

text \<open>
  A store that holds no set and answers every round trip, a process that has written
  nothing to its console, and the repository on the default key \<^verbatim>\<open>banned:emails\<close>.
\<close>

definition empty_store :: valkey where
  "empty_store = \<lparr>faults = [], sets = (\<lambda>k. [])\<rparr>"

definition started :: "'s \<Rightarrow> 's process" where
  "started s = \<lparr>console = [], repository = s\<rparr>"

definition default_repository :: ValkeyBannedEmailRepository where
  "default_repository = ValkeyBannedEmailRepository_new None"

section \<open>Strings beyond Latin-1\<close>

text \<open>
  \<^verbatim>\<open>String.prototype.toLowerCase\<close> maps one code unit to one code unit, whatever its
  neighbours, on the strings of code units below 256. Beyond them it does not: the Greek
  capital sigma becomes the small final sigma or the small sigma according to the
  characters around it. To trace the constructor there, the operations of \<^verbatim>\<open>email.ts\<close>
  are given a second time, on a larger alphabet: the code units below 256, the capital
  letters of the Greek alphabet (U+0391 to U+03A9), its small letters (U+03B1 to U+03C9)
  and the small final sigma (U+03C2). Each is one code unit, and none of the Greek
  letters is white space.
\<close>

datatype greek =
  Alpha | Beta | Gamma | Delta | Epsilon | Zeta | Eta | Theta | Iota | Kappa | Lamda | Mu |
  Nu | Xi | Omicron | Pi | Rho | Sigma | Tau | Upsilon | Phi | Chi | Psi | Omega

datatype code_unit = Latin1 char | Capital greek | Small greek | FinalSigma

definition isWhiteSpace16 :: "code_unit \<Rightarrow> bool" where
  "isWhiteSpace16 u = (case u of Latin1 c \<Rightarrow> isWhiteSpace c | _ \<Rightarrow> False)"

definition trim16 :: "code_unit list \<Rightarrow> code_unit list" where
  "trim16 s = rev (dropWhile isWhiteSpace16 (rev (dropWhile isWhiteSpace16 s)))"

text \<open>
  \<^verbatim>\<open>toLowerCase\<close> is the lower-case conversion of the Unicode standard. A capital
  sigma in the context Final_Sigma becomes the small final sigma: it is preceded by a
  cased letter and then any number of case-ignorable characters, and it is not followed
  by any number of case-ignorable characters and then a cased letter. Every other
  character takes its own lower-case letter. On this alphabet the cased characters are
  the letters A-Z and a-z, the ordinal indicators 170 and 186, the micro sign 181, the
  Latin-1 letters 192-255 without the signs 215 and 247, and the Greek letters; the
  case-ignorable ones are the apostrophe, the full stop, the colon, the circumflex, the
  grave accent, the diaeresis, the soft hyphen, the macron, the acute accent, the middle
  dot and the cedilla. No character of it is both.
\<close>

definition cased :: "code_unit \<Rightarrow> bool" where
  "cased u =
     (case u of
        Latin1 c \<Rightarrow>
          (let n = (of_char c :: nat) in
           (65 \<le> n \<and> n \<le> 90) \<or> (97 \<le> n \<and> n \<le> 122) \<or> n = 170 \<or> n = 181 \<or> n = 186 \<or>
           (192 \<le> n \<and> n \<le> 214) \<or> (216 \<le> n \<and> n \<le> 246) \<or> (248 \<le> n \<and> n \<le> 255))
      | _ \<Rightarrow> True)"

definition case_ignorable :: "code_unit \<Rightarrow> bool" where
  "case_ignorable u =
     (case u of
        Latin1 c \<Rightarrow> (of_char c :: nat) \<in> set [39, 46, 58, 94, 96, 168, 173, 175, 180, 183, 184]
      | _ \<Rightarrow> False)"

definition final_sigma :: "code_unit list \<Rightarrow> code_unit list \<Rightarrow> bool" where
  "final_sigma pre post =
     ((case dropWhile case_ignorable (rev pre) of [] \<Rightarrow> False | u # _ \<Rightarrow> cased u) \<and>
      (case dropWhile case_ignorable post of [] \<Rightarrow> True | u # _ \<Rightarrow> \<not> cased u))"

definition toLowerCase_unit :: "code_unit \<Rightarrow> code_unit" where
  "toLowerCase_unit u =
     (case u of
        Latin1 c \<Rightarrow> Latin1 (toLowerCase_char c)
      | Capital g \<Rightarrow> Small g
      | Small g \<Rightarrow> Small g
      | FinalSigma \<Rightarrow> FinalSigma)"

fun toLowerCase_from :: "code_unit list \<Rightarrow> code_unit list \<Rightarrow> code_unit list" where
  "toLowerCase_from pre [] = []"
| "toLowerCase_from pre (u # post) =
     (if u = Capital Sigma \<and> final_sigma pre post then FinalSigma
      else toLowerCase_unit u) # toLowerCase_from (pre @ [u]) post"

definition toLowerCase16 :: "code_unit list \<Rightarrow> code_unit list" where
  "toLowerCase16 s = toLowerCase_from [] s"

fun includes16 :: "code_unit list \<Rightarrow> code_unit list \<Rightarrow> bool" where
  "includes16 [] sub = (sub = [])"
| "includes16 (u # us) sub = (take (length sub) (u # us) = sub \<or> includes16 us sub)"

text \<open>
  The regular expression is the one of above; it is run on code units, a literal
  matching the code unit of its character.
\<close>

fun in_class16 :: "char_class \<Rightarrow> code_unit \<Rightarrow> bool" where
  "in_class16 NotSpaceNorAt u = (\<not> isWhiteSpace16 u \<and> u \<noteq> Latin1 (CHR ''@''))"

fun test16 :: "regex_item list \<Rightarrow> code_unit list \<Rightarrow> bool" where
  "test16 [] s = (s = [])"
| "test16 (Lit c # r) [] = False"
| "test16 (Lit c # r) (x # xs) = (x = Latin1 c \<and> test16 r xs)"
| "test16 (Many1 p # r) [] = False"
| "test16 (Many1 p # r) (x # xs) =
     (in_class16 p x \<and> (test16 (Many1 p # r) xs \<or> test16 r xs))"

datatype error16 = Error16 "code_unit list"

definition InvalidFormat16 :: "code_unit list \<Rightarrow> error16" where
  "InvalidFormat16 email = Error16 (map Latin1 ''Invalid email format: '' @ email)"

datatype Email16 = Email16 (getValue16: "code_unit list")

definition hasConsecutiveDots16 :: "code_unit list \<Rightarrow> bool" where
  "hasConsecutiveDots16 email = includes16 email (map Latin1 ''..'')"

definition isValid16 :: "code_unit list \<Rightarrow> bool" where
  "isValid16 email =
     (length email > 0 \<and> length email \<le> 254 \<and> \<not> hasConsecutiveDots16 email \<and>
      test16 EMAIL_REGEX email)"

definition Email_new16 :: "code_unit list \<Rightarrow> error16 + Email16" where
  "Email_new16 email =
     (let normalizedEmail = trim16 email in
      if \<not> isValid16 normalizedEmail then Inl (InvalidFormat16 email)
      else Inr (Email16 (toLowerCase16 normalizedEmail)))"





section \<open>Properties of the string operations\<close>

lemma toLowerCase_char_idem: "toLowerCase_char (toLowerCase_char c) = toLowerCase_char c"
  by (auto simp add: toLowerCase_char_def Let_def)

lemma toLowerCase_idem: "toLowerCase (toLowerCase s) = toLowerCase s"
  by (simp add: toLowerCase_def toLowerCase_char_idem)

lemma toLowerCase_char_dot: "toLowerCase_char c = CHR ''.'' \<longleftrightarrow> c = CHR ''.''"
  by (auto simp add: toLowerCase_char_def Let_def char_of_eq_iff take_bit_eq_mod)

lemma toLowerCase_char_at: "toLowerCase_char c = CHR ''@'' \<longleftrightarrow> c = CHR ''@''"
  by (auto simp add: toLowerCase_char_def Let_def char_of_eq_iff take_bit_eq_mod)

lemma toLowerCase_char_space: "isWhiteSpace (toLowerCase_char c) \<longleftrightarrow> isWhiteSpace c"
  by (auto simp add: toLowerCase_char_def Let_def char_of_eq_iff take_bit_eq_mod
      isWhiteSpace_def)

lemma length_toLowerCase: "length (toLowerCase s) = length s"
  by (simp add: toLowerCase_def)

lemma includes_iff: "includes_str s sub \<longleftrightarrow> (\<exists>p q. s = p @ sub @ q)"
proof (induction s)
  case Nil
  then show ?case by auto
next
  case (Cons c cs)
  show ?case
  proof
    assume "includes_str (c # cs) sub"
    then consider "take (length sub) (c # cs) = sub" | "includes_str cs sub" by auto
    then show "\<exists>p q. c # cs = p @ sub @ q"
    proof cases
      case 1
      then have "c # cs = [] @ sub @ drop (length sub) (c # cs)"
        by (metis append_Nil append_take_drop_id)
      then show ?thesis by blast
    next
      case 2
      with Cons.IH obtain p q where "cs = p @ sub @ q" by blast
      then have "c # cs = (c # p) @ sub @ q" by simp
      then show ?thesis by blast
    qed
  next
    assume "\<exists>p q. c # cs = p @ sub @ q"
    then obtain p q where pq: "c # cs = p @ sub @ q" by blast
    show "includes_str (c # cs) sub"
    proof (cases p)
      case Nil
      with pq have "take (length sub) (c # cs) = sub" by simp
      then show ?thesis by simp
    next
      case (Cons a p')
      with pq have "cs = p' @ sub @ q" by simp
      with Cons.IH have "includes_str cs sub" by blast
      then show ?thesis by simp
    qed
  qed
qed

lemma includes_dots_rev: "includes_str (rev s) ''..'' = includes_str s ''..''"
proof -
  have "(\<exists>p q. rev s = p @ ''..'' @ q) \<longleftrightarrow> (\<exists>p q. s = p @ ''..'' @ q)"
  proof
    assume "\<exists>p q. rev s = p @ ''..'' @ q"
    then obtain p q where "rev s = p @ ''..'' @ q" by blast
    then have "rev (rev s) = rev (p @ ''..'' @ q)" by simp
    then have "s = rev q @ ''..'' @ rev p" by simp
    then show "\<exists>p q. s = p @ ''..'' @ q" by blast
  next
    assume "\<exists>p q. s = p @ ''..'' @ q"
    then obtain p q where "s = p @ ''..'' @ q" by blast
    then have "rev s = rev q @ ''..'' @ rev p" by simp
    then show "\<exists>p q. rev s = p @ ''..'' @ q" by blast
  qed
  then show ?thesis by (simp only: includes_iff)
qed

lemma includes_dots_dropWhile:
  "includes_str (dropWhile isWhiteSpace s) ''..'' = includes_str s ''..''"
proof (induction s)
  case Nil
  then show ?case by simp
next
  case (Cons c cs)
  show ?case
  proof (cases "isWhiteSpace c")
    case True
    then have "c \<noteq> CHR ''.''" by (auto simp add: isWhiteSpace_def)
    then have "includes_str (c # cs) ''..'' = includes_str cs ''..''" by simp
    with True Cons.IH show ?thesis by simp
  next
    case False
    then show ?thesis by simp
  qed
qed

lemma includes_dots_trim: "includes_str (trim s) ''..'' = includes_str s ''..''"
  by (simp add: trim_def includes_dots_rev includes_dots_dropWhile)

lemma includes_dots_toLowerCase:
  "includes_str (toLowerCase s) ''..'' = includes_str s ''..''"
proof (induction s)
  case Nil
  then show ?case by (simp add: toLowerCase_def)
next
  case (Cons c cs)
  have "take 2 (toLowerCase (c # cs)) = ''..'' \<longleftrightarrow> take 2 (c # cs) = ''..''"
    by (cases cs) (auto simp add: toLowerCase_def toLowerCase_char_dot)
  moreover have "toLowerCase (c # cs) = toLowerCase_char c # toLowerCase cs"
    by (simp add: toLowerCase_def)
  ultimately show ?case using Cons.IH by simp
qed

lemma trim_decomp:
  "\<exists>a b. s = a @ trim s @ b \<and> list_all isWhiteSpace a \<and> list_all isWhiteSpace b"
proof -
  let ?m = "dropWhile isWhiteSpace s"
  let ?a = "takeWhile isWhiteSpace s"
  let ?b = "rev (takeWhile isWhiteSpace (rev ?m))"
  have "takeWhile isWhiteSpace (rev ?m) @ dropWhile isWhiteSpace (rev ?m) = rev ?m"
    by (rule takeWhile_dropWhile_id)
  then have "rev (takeWhile isWhiteSpace (rev ?m) @ dropWhile isWhiteSpace (rev ?m)) = rev (rev ?m)"
    by (rule arg_cong)
  then have "rev (dropWhile isWhiteSpace (rev ?m)) @ ?b = ?m"
    by (simp only: rev_append rev_rev_ident)
  then have m: "?m = trim s @ ?b" by (simp only: trim_def)
  have "s = ?a @ ?m" by simp
  with m have "s = ?a @ trim s @ ?b" by simp
  moreover have "list_all isWhiteSpace ?a"
    by (simp add: list_all_iff) (meson set_takeWhileD)
  moreover have "list_all isWhiteSpace ?b"
    by (simp add: list_all_iff) (meson set_takeWhileD)
  ultimately show ?thesis by blast
qed

lemma set_trim: "set (trim s) \<subseteq> set s"
proof -
  obtain a b where "s = a @ trim s @ b" using trim_decomp by blast
  then have "set s = set a \<union> set (trim s) \<union> set b" by (metis set_append Un_assoc)
  then show ?thesis by blast
qed

lemma length_trim: "length (trim s) \<le> length s"
proof -
  obtain a b where "s = a @ trim s @ b" using trim_decomp by blast
  then have "length s = length a + length (trim s) + length b" by (metis length_append add.assoc)
  then show ?thesis by simp
qed

section \<open>Properties of the regular expression\<close>

lemma test_Lit: "test (Lit c # r) s \<longleftrightarrow> (\<exists>xs. s = c # xs \<and> test r xs)"
  by (cases s) auto

lemma test_Many1:
  "test (Many1 p # r) s \<longleftrightarrow>
     (\<exists>u v. s = u @ v \<and> u \<noteq> [] \<and> list_all (in_class p) u \<and> test r v)"
proof (induction s)
  case Nil
  then show ?case by simp
next
  case (Cons x xs)
  show ?case
  proof
    assume "test (Many1 p # r) (x # xs)"
    then have px: "in_class p x" and rest: "test (Many1 p # r) xs \<or> test r xs" by auto
    from rest show "\<exists>u v. x # xs = u @ v \<and> u \<noteq> [] \<and> list_all (in_class p) u \<and> test r v"
    proof
      assume "test (Many1 p # r) xs"
      with Cons.IH obtain u v where "xs = u @ v" "list_all (in_class p) u" "test r v"
        by blast
      with px have "x # xs = (x # u) @ v \<and> x # u \<noteq> [] \<and> list_all (in_class p) (x # u) \<and> test r v"
        by simp
      then show ?thesis by blast
    next
      assume "test r xs"
      with px have "x # xs = [x] @ xs \<and> [x] \<noteq> [] \<and> list_all (in_class p) [x] \<and> test r xs"
        by simp
      then show ?thesis by blast
    qed
  next
    assume "\<exists>u v. x # xs = u @ v \<and> u \<noteq> [] \<and> list_all (in_class p) u \<and> test r v"
    then obtain u v where uv: "x # xs = u @ v" "u \<noteq> []" "list_all (in_class p) u" "test r v"
      by blast
    then obtain u' where u: "u = x # u'" by (cases u) auto
    with uv have px: "in_class p x" and xs: "xs = u' @ v" and u': "list_all (in_class p) u'"
      by auto
    show "test (Many1 p # r) (x # xs)"
    proof (cases u')
      case Nil
      with xs uv px show ?thesis by simp
    next
      case (Cons y ys)
      with xs u' uv have "\<exists>u v. xs = u @ v \<and> u \<noteq> [] \<and> list_all (in_class p) u \<and> test r v"
        by blast
      with Cons.IH px show ?thesis by simp
    qed
  qed
qed

lemma test_EMAIL_REGEX:
  "test EMAIL_REGEX s \<longleftrightarrow>
     (\<exists>l d t. s = l @ CHR ''@'' # d @ CHR ''.'' # t \<and> l \<noteq> [] \<and> d \<noteq> [] \<and> t \<noteq> [] \<and>
        list_all (in_class NotSpaceNorAt) l \<and> list_all (in_class NotSpaceNorAt) d \<and>
        list_all (in_class NotSpaceNorAt) t)"
proof
  assume "test EMAIL_REGEX s"
  then obtain l v1 where l: "s = l @ v1" "l \<noteq> []" "list_all (in_class NotSpaceNorAt) l"
    and v1: "test [Lit (CHR ''@''), Many1 NotSpaceNorAt, Lit (CHR ''.''), Many1 NotSpaceNorAt] v1"
    unfolding EMAIL_REGEX_def test_Many1 [of _ _ s] by blast
  from v1 obtain v2 where v2: "v1 = CHR ''@'' # v2"
    "test [Many1 NotSpaceNorAt, Lit (CHR ''.''), Many1 NotSpaceNorAt] v2"
    unfolding test_Lit by blast
  from v2(2) obtain d v3 where d: "v2 = d @ v3" "d \<noteq> []" "list_all (in_class NotSpaceNorAt) d"
    and v3: "test [Lit (CHR ''.''), Many1 NotSpaceNorAt] v3"
    unfolding test_Many1 [of _ _ v2] by blast
  from v3 obtain t where t: "v3 = CHR ''.'' # t" "test [Many1 NotSpaceNorAt] t"
    unfolding test_Lit by blast
  from t(2) obtain u w where w: "t = u @ w" "u \<noteq> []" "list_all (in_class NotSpaceNorAt) u" "test [] w"
    unfolding test_Many1 [of _ _ t] by blast
  then have "w = []" by simp
  with w have "t \<noteq> []" "list_all (in_class NotSpaceNorAt) t" by simp_all
  with l v2 d t show "\<exists>l d t. s = l @ CHR ''@'' # d @ CHR ''.'' # t \<and> l \<noteq> [] \<and> d \<noteq> [] \<and> t \<noteq> [] \<and>
        list_all (in_class NotSpaceNorAt) l \<and> list_all (in_class NotSpaceNorAt) d \<and>
        list_all (in_class NotSpaceNorAt) t"
    by auto
next
  assume "\<exists>l d t. s = l @ CHR ''@'' # d @ CHR ''.'' # t \<and> l \<noteq> [] \<and> d \<noteq> [] \<and> t \<noteq> [] \<and>
        list_all (in_class NotSpaceNorAt) l \<and> list_all (in_class NotSpaceNorAt) d \<and>
        list_all (in_class NotSpaceNorAt) t"
  then obtain l d t where s: "s = l @ CHR ''@'' # d @ CHR ''.'' # t" and ne: "l \<noteq> []" "d \<noteq> []" "t \<noteq> []"
    and cl: "list_all (in_class NotSpaceNorAt) l" "list_all (in_class NotSpaceNorAt) d"
      "list_all (in_class NotSpaceNorAt) t"
    by blast
  have "test [Many1 NotSpaceNorAt] t"
    unfolding test_Many1 [of _ _ t] using ne cl by (intro exI [of _ t] exI [of _ "[]"]) simp
  then have "test [Lit (CHR ''.''), Many1 NotSpaceNorAt] (CHR ''.'' # t)" by simp
  then have "test [Many1 NotSpaceNorAt, Lit (CHR ''.''), Many1 NotSpaceNorAt] (d @ CHR ''.'' # t)"
    unfolding test_Many1 [of _ _ "d @ CHR ''.'' # t"] using ne cl by blast
  then have "test [Lit (CHR ''@''), Many1 NotSpaceNorAt, Lit (CHR ''.''), Many1 NotSpaceNorAt]
      (CHR ''@'' # d @ CHR ''.'' # t)" by simp
  then show "test EMAIL_REGEX s"
    unfolding EMAIL_REGEX_def s test_Many1 [of _ _ "l @ CHR ''@'' # d @ CHR ''.'' # t"]
    using ne cl by blast
qed

lemma test_toLowerCase:
  assumes "\<And>c x. Lit c \<in> set r \<Longrightarrow> (toLowerCase_char x = c) = (x = c)"
  shows "test r (toLowerCase s) = test r s"
  using assms
proof (induction r s rule: test.induct)
  case (1 s)
  then show ?case by (simp add: toLowerCase_def)
next
  case (2 c r)
  then show ?case by (simp add: toLowerCase_def)
next
  case (3 c r x xs)
  then show ?case by (simp add: toLowerCase_def)
next
  case (4 p r)
  then show ?case by (simp add: toLowerCase_def)
next
  case (5 p r x xs)
  have "in_class p (toLowerCase_char x) = in_class p x"
    by (cases p) (simp add: toLowerCase_char_space toLowerCase_char_at)
  with 5 show ?case by (simp add: toLowerCase_def)
qed

lemma isValid_toLowerCase: "isValid (toLowerCase s) = isValid s"
proof -
  have "test EMAIL_REGEX (toLowerCase s) = test EMAIL_REGEX s"
    by (rule test_toLowerCase)
      (auto simp add: EMAIL_REGEX_def toLowerCase_char_at toLowerCase_char_dot)
  then show ?thesis
    by (simp add: isValid_def hasConsecutiveDots_def includes_dots_toLowerCase
        length_toLowerCase)
qed

lemmas async_defs = async_bind_def async_return_def async_throw_def try_catch_def
  from_sync_def in_repository_def console_error_def

lemmas store_defs = sismember_def sadd_def srem_def smembers_def del_def round_trip_def
  Let_def

lemmas concrete_defs = default_repository_def ValkeyBannedEmailRepository_new_def
  empty_store_def started_def toLowerCase_def toLowerCase_char_def char_of_eq_iff

lemma Valkey_isBanned_eq:
  "Valkey_isBanned this email st = sismember (setKey this) (toLowerCase email) st"
  by (simp add: Valkey_isBanned_def async_bind_def async_return_def split: prod.splits sum.splits)

lemma regex_needs_at:
  assumes "test EMAIL_REGEX t"
  shows "CHR ''@'' \<in> set t"
proof -
  from assms obtain l d u where "t = l @ CHR ''@'' # d @ CHR ''.'' # u"
    unfolding test_EMAIL_REGEX by blast
  then show ?thesis by simp
qed

lemma regex_needs_domain_dot:
  assumes "test EMAIL_REGEX (trim s)"
  shows "CHR ''.'' \<in> set (dropWhile (\<lambda>c. c \<noteq> CHR ''@'') s)"
proof -
  from assms obtain l d u where t: "trim s = l @ CHR ''@'' # d @ CHR ''.'' # u"
    and l: "list_all (in_class NotSpaceNorAt) l"
    unfolding test_EMAIL_REGEX by blast
  obtain a b where s: "s = a @ trim s @ b" and a: "list_all isWhiteSpace a"
    using trim_decomp by blast
  have "\<not> isWhiteSpace (CHR ''@'')" by (simp add: isWhiteSpace_def)
  with a l have no_at: "\<And>x. x \<in> set (a @ l) \<Longrightarrow> x \<noteq> CHR ''@''"
    by (auto simp add: list_all_iff)
  have "dropWhile (\<lambda>c. c \<noteq> CHR ''@'') ((a @ l) @ (CHR ''@'' # d @ CHR ''.'' # u @ b)) =
      dropWhile (\<lambda>c. c \<noteq> CHR ''@'') (CHR ''@'' # d @ CHR ''.'' # u @ b)"
    by (rule dropWhile_append2) (rule no_at)
  moreover from s t have "s = (a @ l) @ (CHR ''@'' # d @ CHR ''.'' # u @ b)" by simp
  ultimately have "dropWhile (\<lambda>c. c \<noteq> CHR ''@'') s =
      dropWhile (\<lambda>c. c \<noteq> CHR ''@'') (CHR ''@'' # d @ CHR ''.'' # u @ b)"
    by (simp only:)
  then show ?thesis by simp
qed

section \<open>Construction of the Email value object\<close>

text \<open>
  Claim C4, as amended. For every string that lacks an \<open>@\<close>, or has no \<open>.\<close> after its
  first \<open>@\<close>, or contains two consecutive dots, or has length 0, or whose trimmed form is
  longer than 254 characters: \<open>new Email\<close> and \<open>create\<close> fail with \<open>InvalidFormat\<close>
  carrying the original, untrimmed input, and so does \<open>createWithAntiSpam\<close> whenever the
  gate answers \<open>False\<close> for that input.
\<close>

theorem invalid_format_rejected:
  assumes "CHR ''@'' \<notin> set s \<or> CHR ''.'' \<notin> set (dropWhile (\<lambda>c. c \<noteq> CHR ''@'') s) \<or>
    includes_str s ''..'' \<or> length s = 0 \<or> length (trim s) > 254"
  shows "Email_new s = Inl (InvalidFormat s) \<and> create s = Inl (InvalidFormat s) \<and>
    (\<forall>gate w w'. gate s w = (Inr False, w') \<longrightarrow>
       createWithAntiSpam s gate w = (Inl (InvalidFormat s), w'))"
proof -
  have invalid: "\<not> isValid (trim s)"
  proof
    assume valid: "isValid (trim s)"
    then have re: "test EMAIL_REGEX (trim s)" by (simp add: isValid_def)
    from re have "CHR ''@'' \<in> set (trim s)" by (rule regex_needs_at)
    with set_trim have 1: "CHR ''@'' \<in> set s" by blast
    from re have 2: "CHR ''.'' \<in> set (dropWhile (\<lambda>c. c \<noteq> CHR ''@'') s)"
      by (rule regex_needs_domain_dot)
    from valid have 3: "\<not> includes_str s ''..''"
      by (simp add: isValid_def hasConsecutiveDots_def includes_dots_trim)
    from 1 have 4: "length s \<noteq> 0" by auto
    from valid have 5: "\<not> length (trim s) > 254" by (simp add: isValid_def)
    from assms 1 2 3 4 5 show False by blast
  qed
  then have "Email_new s = Inl (InvalidFormat s)" by (simp add: Email_new_def)
  then show ?thesis
    by (simp add: create_def createWithAntiSpam_def async_bind_def from_sync_def)
qed

theorem invalid_format_rejected_witness:
  "Email_new ''invalid-email'' = Inl (InvalidFormat ''invalid-email'') \<and>
   Email_new ''test@example'' = Inl (InvalidFormat ''test@example'') \<and>
   Email_new ''test..test@example.com'' = Inl (InvalidFormat ''test..test@example.com'') \<and>
   create [] = Inl (InvalidFormat []) \<and>
   create (replicate 250 (CHR ''a'') @ ''@b.cd'') =
     Inl (InvalidFormat (replicate 250 (CHR ''a'') @ ''@b.cd''))"
proof -
  have 1: "CHR ''@'' \<notin> set ''invalid-email'' \<or>
      CHR ''.'' \<notin> set (dropWhile (\<lambda>c. c \<noteq> CHR ''@'') ''invalid-email'') \<or>
      includes_str ''invalid-email'' ''..'' \<or> length ''invalid-email'' = 0 \<or>
      length (trim ''invalid-email'') > 254"
    by simp
  have 2: "CHR ''@'' \<notin> set ''test@example'' \<or>
      CHR ''.'' \<notin> set (dropWhile (\<lambda>c. c \<noteq> CHR ''@'') ''test@example'') \<or>
      includes_str ''test@example'' ''..'' \<or> length ''test@example'' = 0 \<or>
      length (trim ''test@example'') > 254"
    by simp
  have 3: "CHR ''@'' \<notin> set ''test..test@example.com'' \<or>
      CHR ''.'' \<notin> set (dropWhile (\<lambda>c. c \<noteq> CHR ''@'') ''test..test@example.com'') \<or>
      includes_str ''test..test@example.com'' ''..'' \<or> length ''test..test@example.com'' = 0 \<or>
      length (trim ''test..test@example.com'') > 254"
    by simp
  have 4: "CHR ''@'' \<notin> set [] \<or>
      CHR ''.'' \<notin> set (dropWhile (\<lambda>c. c \<noteq> CHR ''@'') []) \<or>
      includes_str [] ''..'' \<or> length ([] :: string) = 0 \<or> length (trim []) > 254"
    by simp
  have "length (trim (replicate 250 (CHR ''a'') @ ''@b.cd'')) > 254"
    by code_simp
  then have 5: "CHR ''@'' \<notin> set (replicate 250 (CHR ''a'') @ ''@b.cd'') \<or>
      CHR ''.'' \<notin> set (dropWhile (\<lambda>c. c \<noteq> CHR ''@'') (replicate 250 (CHR ''a'') @ ''@b.cd'')) \<or>
      includes_str (replicate 250 (CHR ''a'') @ ''@b.cd'') ''..'' \<or>
      length (replicate 250 (CHR ''a'') @ ''@b.cd'') = 0 \<or>
      length (trim (replicate 250 (CHR ''a'') @ ''@b.cd'')) > 254"
    by blast
  from invalid_format_rejected [OF 1] invalid_format_rejected [OF 2]
    invalid_format_rejected [OF 3] invalid_format_rejected [OF 4]
    invalid_format_rejected [OF 5]
  show ?thesis by blast
qed

text \<open>
  Claim C4, as stated, fails twice. An input longer than 254 characters is accepted when
  trimming brings it down to a valid address: the length is checked after \<open>trim\<close>. And
  \<open>createWithAntiSpam\<close> asks the gate before it validates: an input without \<open>@\<close> that
  is on the banned list fails with \<open>Blocked\<close>, not with \<open>InvalidFormat\<close>.
\<close>

theorem invalid_format_counterexample:
  "length (''a@b.c'' @ replicate 250 (CHR '' '')) > 254 \<and>
   Email_new (''a@b.c'' @ replicate 250 (CHR '' '')) = Inr (Email ''a@b.c'') \<and>
   CHR ''@'' \<notin> set ''nope'' \<and>
   fst (createWithAntiSpam ''nope'' (isBlocked (Valkey_repository default_repository))
         (started (snd (Valkey_ban default_repository ''nope'' empty_store)))) =
     Inl (Blocked ''nope'') \<and>
   Blocked ''nope'' \<noteq> InvalidFormat ''nope''"
proof -
  have "length (''a@b.c'' @ replicate 250 (CHR '' '')) > 254" by simp
  moreover have "Email_new (''a@b.c'' @ replicate 250 (CHR '' '')) = Inr (Email ''a@b.c'')"
    by code_simp
  moreover have "CHR ''@'' \<notin> set ''nope''" by simp
  moreover have "fst (createWithAntiSpam ''nope'' (isBlocked (Valkey_repository default_repository))
         (started (snd (Valkey_ban default_repository ''nope'' empty_store)))) =
     Inl (Blocked ''nope'')"
    by (simp add: createWithAntiSpam_def isBlocked_def try_catch_def in_repository_def
        async_bind_def async_return_def async_throw_def Valkey_repository_def
        Valkey_isBanned_eq Valkey_ban_def sismember_def sadd_def round_trip_def
        default_repository_def ValkeyBannedEmailRepository_new_def empty_store_def
        started_def toLowerCase_def toLowerCase_char_def)
  moreover have "Blocked ''nope'' \<noteq> InvalidFormat ''nope''"
    by (simp add: Blocked_def InvalidFormat_def)
  ultimately show ?thesis by blast
qed

text \<open>
  Claim C2, as amended. For every input string and every gate, \<open>createWithAntiSpam\<close>
  first asks the gate about the input as it was given (not trimmed, its case unchanged).
  When the gate answers \<open>True\<close>, construction fails with \<open>Blocked\<close> carrying the input as
  given, whether or not the input is syntactically valid. When the gate answers \<open>False\<close>,
  the input is trimmed and validated: construction fails with \<open>InvalidFormat\<close> carrying
  the original input when the trimmed input is not valid, and succeeds otherwise with the
  identity of the trimmed, lower-cased address. A rejection of the gate is passed on.
\<close>

theorem createWithAntiSpam_gate_first:
  "(\<forall>w'. gate email w = (Inr True, w') \<longrightarrow>
      createWithAntiSpam email gate w = (Inl (Blocked email), w')) \<and>
   (\<forall>w'. gate email w = (Inr False, w') \<longrightarrow>
      createWithAntiSpam email gate w =
        (if isValid (trim email) then Inr (Email (toLowerCase (trim email)))
         else Inl (InvalidFormat email), w')) \<and>
   (\<forall>e w'. gate email w = (Inl e, w') \<longrightarrow> createWithAntiSpam email gate w = (Inl e, w'))"
  by (simp add: createWithAntiSpam_def async_defs Email_new_def)

theorem createWithAntiSpam_gate_first_witness:
  "fst (createWithAntiSpam ''attacker@example.com''
         (isBlocked (Valkey_repository default_repository))
         (started (snd (Valkey_ban default_repository ''attacker@example.com'' empty_store)))) =
     Inl (Blocked ''attacker@example.com'') \<and>
   fst (createWithAntiSpam '' Legitimate@Example.com''
         (isBlocked (Valkey_repository default_repository))
         (started (snd (Valkey_ban default_repository ''attacker@example.com'' empty_store)))) =
     Inr (Email ''legitimate@example.com'')"
proof -
  let ?gate = "isBlocked (Valkey_repository default_repository)"
  let ?w = "started (snd (Valkey_ban default_repository ''attacker@example.com'' empty_store))"
  have "fst (?gate ''attacker@example.com'' ?w) = Inr True"
    by (simp add: isBlocked_def async_defs Valkey_repository_def Valkey_isBanned_eq
        Valkey_ban_def store_defs concrete_defs)
  then have blocked: "?gate ''attacker@example.com'' ?w =
      (Inr True, snd (?gate ''attacker@example.com'' ?w))"
    by (simp add: prod_eq_iff)
  have "fst (?gate '' Legitimate@Example.com'' ?w) = Inr False"
    by (simp add: isBlocked_def async_defs Valkey_repository_def Valkey_isBanned_eq
        Valkey_ban_def store_defs concrete_defs)
  then have free: "?gate '' Legitimate@Example.com'' ?w =
      (Inr False, snd (?gate '' Legitimate@Example.com'' ?w))"
    by (simp add: prod_eq_iff)
  have valid: "isValid (trim '' Legitimate@Example.com'')" by code_simp
  have lower: "toLowerCase (trim '' Legitimate@Example.com'') = ''legitimate@example.com''"
    by code_simp
  from createWithAntiSpam_gate_first [where gate = "?gate" and w = "?w"
        and email = "''attacker@example.com''", THEN conjunct1, rule_format, OF blocked]
    createWithAntiSpam_gate_first [where gate = "?gate" and w = "?w"
        and email = "'' Legitimate@Example.com''", THEN conjunct2, THEN conjunct1,
        rule_format, OF free]
  show ?thesis by (simp only: valid lower if_True fst_conv simp_thms)
qed

text \<open>
  Claim C2, as stated, fails three times on the state reached by banning one address.
  An input that is not syntactically valid and is on the banned list fails with
  \<open>Blocked\<close>, not with \<open>InvalidFormat\<close>. An input whose trimmed, lower-cased form is
  banned is accepted when it is given with surrounding white space, since the gate is
  asked about the untrimmed input. And \<open>Blocked\<close> carries the input as given, not the
  normalized address.
\<close>

theorem createWithAntiSpam_counterexample:
  "\<not> isValid (trim ''nope'') \<and>
   fst (createWithAntiSpam ''nope'' (isBlocked (Valkey_repository default_repository))
         (started (snd (Valkey_ban default_repository ''nope'' empty_store)))) =
     Inl (Blocked ''nope'') \<and>
   Blocked ''nope'' \<noteq> InvalidFormat ''nope'' \<and>
   fst (isBlocked (Valkey_repository default_repository) (toLowerCase (trim '' a@b.c ''))
         (started (snd (Valkey_ban default_repository ''a@b.c'' empty_store)))) = Inr True \<and>
   fst (createWithAntiSpam '' a@b.c '' (isBlocked (Valkey_repository default_repository))
         (started (snd (Valkey_ban default_repository ''a@b.c'' empty_store)))) =
     Inr (Email ''a@b.c'') \<and>
   fst (createWithAntiSpam ''A@B.C'' (isBlocked (Valkey_repository default_repository))
         (started (snd (Valkey_ban default_repository ''a@b.c'' empty_store)))) =
     Inl (Blocked ''A@B.C'') \<and>
   Blocked ''A@B.C'' \<noteq> Blocked (toLowerCase (trim ''A@B.C''))"
proof -
  have "\<not> isValid (trim ''nope'')" by code_simp
  moreover have "fst (createWithAntiSpam ''nope'' (isBlocked (Valkey_repository default_repository))
         (started (snd (Valkey_ban default_repository ''nope'' empty_store)))) =
     Inl (Blocked ''nope'')"
    by (simp add: createWithAntiSpam_def isBlocked_def async_defs Valkey_repository_def
        Valkey_isBanned_eq Valkey_ban_def store_defs concrete_defs)
  moreover have "Blocked ''nope'' \<noteq> InvalidFormat ''nope''"
    by (simp add: Blocked_def InvalidFormat_def)
  moreover have "trim '' a@b.c '' = ''a@b.c''" by code_simp
  then have "fst (isBlocked (Valkey_repository default_repository) (toLowerCase (trim '' a@b.c ''))
         (started (snd (Valkey_ban default_repository ''a@b.c'' empty_store)))) = Inr True"
    by (simp add: isBlocked_def async_defs Valkey_repository_def
        Valkey_isBanned_eq Valkey_ban_def store_defs concrete_defs)
  moreover have "Email_new '' a@b.c '' = Inr (Email ''a@b.c'')" by code_simp
  then have "fst (createWithAntiSpam '' a@b.c '' (isBlocked (Valkey_repository default_repository))
         (started (snd (Valkey_ban default_repository ''a@b.c'' empty_store)))) =
     Inr (Email ''a@b.c'')"
    by (simp add: createWithAntiSpam_def isBlocked_def async_defs Valkey_repository_def
        Valkey_isBanned_eq Valkey_ban_def store_defs concrete_defs)
  moreover have "fst (createWithAntiSpam ''A@B.C'' (isBlocked (Valkey_repository default_repository))
         (started (snd (Valkey_ban default_repository ''a@b.c'' empty_store)))) =
     Inl (Blocked ''A@B.C'')"
    by (simp add: createWithAntiSpam_def isBlocked_def async_defs Valkey_repository_def
        Valkey_isBanned_eq Valkey_ban_def store_defs concrete_defs)
  moreover have "toLowerCase (trim ''A@B.C'') = ''a@b.c''" by code_simp
  then have "Blocked ''A@B.C'' \<noteq> Blocked (toLowerCase (trim ''A@B.C''))"
    by (simp add: Blocked_def)
  ultimately show ?thesis by blast
qed

section \<open>Properties of the store and of the Valkey repository\<close>

lemma answered_Nil: "answered n []"
  by (cases n) auto

lemma answered_tl: "answered (Suc n) fs \<Longrightarrow> answered n (tl fs)"
  by (cases fs) (auto simp add: answered_Nil)

lemma answered_Suc: "answered (Suc n) fs \<Longrightarrow> answered n fs"
  by (induction n fs rule: answered.induct) auto

lemma answered_drop: "answered (m + n) fs \<Longrightarrow> answered n (drop m fs)"
proof (induction m arbitrary: fs)
  case 0
  then show ?case by simp
next
  case (Suc m)
  then have "answered (m + n) (tl fs)" using answered_tl [of "m + n" fs] by simp
  with Suc.IH have "answered n (drop m (tl fs))" by blast
  then show ?case by (simp add: drop_Suc)
qed

lemma round_trip_answered:
  assumes "answered (Suc n) (faults st)"
  shows "round_trip sets' reply st = (Inr reply, st\<lparr>faults := tl (faults st), sets := sets'\<rparr>)"
proof (cases "faults st")
  case Nil
  then have "st\<lparr>faults := []\<rparr> = st" by simp
  with Nil show ?thesis by (simp add: round_trip_def)
next
  case (Cons f fs)
  with assms show ?thesis by (simp add: round_trip_def)
qed

lemma Valkey_isBanned_answered:
  assumes "answered (Suc n) (faults st)"
  shows "Valkey_isBanned this email st =
    (Inr (toLowerCase email \<in> set (sets st (setKey this))), st\<lparr>faults := tl (faults st)\<rparr>)"
  by (simp add: Valkey_isBanned_def async_defs sismember_def Let_def round_trip_answered [OF assms])

lemma Valkey_ban_answered:
  assumes "answered (Suc n) (faults st)"
  shows "Valkey_ban this email st =
    (Inr (), st\<lparr>faults := tl (faults st),
      sets := (sets st)(setKey this :=
        (if toLowerCase email \<in> set (sets st (setKey this)) then sets st (setKey this)
         else sets st (setKey this) @ [toLowerCase email]))\<rparr>)"
  by (simp add: Valkey_ban_def async_defs sadd_def Let_def round_trip_answered [OF assms])

lemma Valkey_unban_answered:
  assumes "answered (Suc n) (faults st)"
  shows "Valkey_unban this email st =
    (Inr (), st\<lparr>faults := tl (faults st),
      sets := (sets st)(setKey this :=
        filter (\<lambda>m. m \<noteq> toLowerCase email) (sets st (setKey this)))\<rparr>)"
  by (simp add: Valkey_unban_def async_defs srem_def Let_def round_trip_answered [OF assms])

lemma Valkey_getAllBanned_answered:
  assumes "answered (Suc n) (faults st)"
  shows "Valkey_getAllBanned this st =
    (Inr (map toLowerCase (sets st (setKey this))), st\<lparr>faults := tl (faults st)\<rparr>)"
  by (simp add: Valkey_getAllBanned_def async_defs smembers_def Let_def round_trip_answered [OF assms])

lemma Valkey_clear_answered:
  assumes "answered (Suc n) (faults st)"
  shows "Valkey_clear this st =
    (Inr (), st\<lparr>faults := tl (faults st), sets := (sets st)(setKey this := [])\<rparr>)"
proof -
  have "(\<lambda>k. if k \<in> set [setKey this] then [] else sets st k) = (sets st)(setKey this := [])"
    by auto
  then show ?thesis
    by (simp add: Valkey_clear_def async_defs del_def round_trip_answered [OF assms])
qed

text \<open>Whatever the store answers, a call changes the banned set in one of these ways.\<close>

lemma sets_Valkey_isBanned: "sets (snd (Valkey_isBanned this email st)) = sets st"
  by (simp add: Valkey_isBanned_def async_defs store_defs split: list.splits option.splits)

lemma sets_Valkey_getAllBanned: "sets (snd (Valkey_getAllBanned this st)) = sets st"
  by (simp add: Valkey_getAllBanned_def async_defs store_defs split: list.splits option.splits)

lemma sets_Valkey_ban:
  "sets (snd (Valkey_ban this email st)) (setKey this) = sets st (setKey this) \<or>
   toLowerCase email \<notin> set (sets st (setKey this)) \<and>
   sets (snd (Valkey_ban this email st)) (setKey this) =
     sets st (setKey this) @ [toLowerCase email]"
  by (simp add: Valkey_ban_def async_defs store_defs split: list.splits option.splits)

lemma sets_Valkey_unban:
  "sets (snd (Valkey_unban this email st)) (setKey this) = sets st (setKey this) \<or>
   sets (snd (Valkey_unban this email st)) (setKey this) =
     filter (\<lambda>m. m \<noteq> toLowerCase email) (sets st (setKey this))"
  by (simp add: Valkey_unban_def async_defs store_defs split: list.splits option.splits)

lemma sets_Valkey_clear:
  "sets (snd (Valkey_clear this st)) (setKey this) = sets st (setKey this) \<or>
   sets (snd (Valkey_clear this st)) (setKey this) = []"
  by (simp add: Valkey_clear_def async_defs store_defs split: list.splits option.splits)

lemma call_lower_cased:
  assumes "lower_cased (sets st (setKey this))"
  shows "lower_cased (sets (call (Valkey_repository this) c st) (setKey this))"
proof (cases c)
  case (IsBanned e)
  with assms show ?thesis by (simp add: Valkey_repository_def sets_Valkey_isBanned)
next
  case (Ban e)
  from assms have "lower_cased (sets st (setKey this) @ [toLowerCase e])"
    if "toLowerCase e \<notin> set (sets st (setKey this))"
    using that by (simp add: lower_cased_def toLowerCase_idem)
  with assms sets_Valkey_ban [of this e st] Ban show ?thesis
    by (auto simp add: Valkey_repository_def)
next
  case (Unban e)
  from assms have "lower_cased (filter (\<lambda>m. m \<noteq> toLowerCase e) (sets st (setKey this)))"
    by (simp add: lower_cased_def list_all_iff)
  with assms sets_Valkey_unban [of this e st] Unban show ?thesis
    by (auto simp add: Valkey_repository_def)
next
  case GetAllBanned
  with assms show ?thesis by (simp add: Valkey_repository_def sets_Valkey_getAllBanned)
next
  case Clear
  have "lower_cased []" by (simp add: lower_cased_def)
  with assms sets_Valkey_clear [of this st] Clear show ?thesis
    by (auto simp add: Valkey_repository_def)
qed

lemma calls_lower_cased:
  "lower_cased (sets st (setKey this)) \<Longrightarrow>
   lower_cased (sets (calls (Valkey_repository this) cs st) (setKey this))"
  by (induction cs arbitrary: st) (simp_all add: call_lower_cased)

lemma call_members:
  "set (sets (call (Valkey_repository this) c st) (setKey this)) \<subseteq>
   set (sets st (setKey this)) \<union> toLowerCase ` {e. c = Ban e}"
proof (cases c)
  case (IsBanned e)
  then show ?thesis by (simp add: Valkey_repository_def sets_Valkey_isBanned)
next
  case (Ban e)
  with sets_Valkey_ban [of this e st] show ?thesis
    by (auto simp add: Valkey_repository_def)
next
  case (Unban e)
  with sets_Valkey_unban [of this e st] show ?thesis
    by (auto simp add: Valkey_repository_def)
next
  case GetAllBanned
  then show ?thesis by (simp add: Valkey_repository_def sets_Valkey_getAllBanned)
next
  case Clear
  with sets_Valkey_clear [of this st] show ?thesis
    by (auto simp add: Valkey_repository_def)
qed

lemma calls_members:
  "set (sets (calls (Valkey_repository this) cs st) (setKey this)) \<subseteq>
   set (sets st (setKey this)) \<union> toLowerCase ` {e. Ban e \<in> set cs}"
proof (induction cs arbitrary: st)
  case Nil
  then show ?case by simp
next
  case (Cons c cs)
  have "set (sets (calls (Valkey_repository this) cs (call (Valkey_repository this) c st))
          (setKey this)) \<subseteq>
        set (sets (call (Valkey_repository this) c st) (setKey this)) \<union>
        toLowerCase ` {e. Ban e \<in> set cs}"
    by (rule Cons.IH)
  with call_members [of this c st] show ?case by auto
qed

lemma ban_all_answered:
  assumes "answered (length xs) (faults st)" and "distinct (sets st (setKey this))"
  shows "distinct (sets (calls (Valkey_repository this) (map Ban xs) st) (setKey this)) \<and>
    set (sets (calls (Valkey_repository this) (map Ban xs) st) (setKey this)) =
      set (sets st (setKey this)) \<union> toLowerCase ` set xs \<and>
    faults (calls (Valkey_repository this) (map Ban xs) st) = drop (length xs) (faults st)"
  using assms
proof (induction xs arbitrary: st)
  case Nil
  then show ?case by simp
next
  case (Cons x xs)
  let ?st1 = "call (Valkey_repository this) (Ban x) st"
  from Cons.prems(1) have a: "answered (Suc (length xs)) (faults st)" by simp
  have st1: "?st1 = st\<lparr>faults := tl (faults st),
      sets := (sets st)(setKey this :=
        (if toLowerCase x \<in> set (sets st (setKey this)) then sets st (setKey this)
         else sets st (setKey this) @ [toLowerCase x]))\<rparr>"
    by (simp add: Valkey_repository_def Valkey_ban_answered [OF a])
  from a have "answered (length xs) (faults ?st1)"
    by (simp only: st1) (simp add: answered_tl)
  moreover from Cons.prems(2) have "distinct (sets ?st1 (setKey this))"
    by (simp only: st1) simp
  ultimately have "distinct (sets (calls (Valkey_repository this) (map Ban xs) ?st1) (setKey this)) \<and>
    set (sets (calls (Valkey_repository this) (map Ban xs) ?st1) (setKey this)) =
      set (sets ?st1 (setKey this)) \<union> toLowerCase ` set xs \<and>
    faults (calls (Valkey_repository this) (map Ban xs) ?st1) = drop (length xs) (faults ?st1)"
    by (rule Cons.IH)
  moreover have "set (sets ?st1 (setKey this)) = insert (toLowerCase x) (set (sets st (setKey this)))"
    by (simp only: st1) auto
  moreover have "drop (length xs) (faults ?st1) = drop (length (x # xs)) (faults st)"
    by (simp only: st1) (simp add: drop_Suc)
  ultimately show ?case by (simp del: call.simps)
qed

lemma ban_repeat_answered:
  assumes "answered n (faults st)" and "toLowerCase x \<in> set (sets st (setKey this))"
  shows "sets (calls (Valkey_repository this) (replicate n (Ban x)) st) = sets st \<and>
    faults (calls (Valkey_repository this) (replicate n (Ban x)) st) = drop n (faults st)"
  using assms
proof (induction n arbitrary: st)
  case 0
  then show ?case by simp
next
  case (Suc n)
  let ?st1 = "call (Valkey_repository this) (Ban x) st"
  have st1: "?st1 = st\<lparr>faults := tl (faults st)\<rparr>"
    using Suc.prems(2)
    by (simp add: Valkey_repository_def Valkey_ban_answered [OF Suc.prems(1)])
  from Suc.prems have "answered n (faults ?st1)"
    and "toLowerCase x \<in> set (sets ?st1 (setKey this))"
    by (simp_all only: st1) (simp_all add: answered_tl)
  then have "sets (calls (Valkey_repository this) (replicate n (Ban x)) ?st1) = sets ?st1 \<and>
    faults (calls (Valkey_repository this) (replicate n (Ban x)) ?st1) = drop n (faults ?st1)"
    by (rule Suc.IH)
  moreover have "sets ?st1 = sets st" and "drop n (faults ?st1) = drop (Suc n) (faults st)"
    by (simp_all only: st1) (simp_all add: drop_Suc)
  ultimately show ?case by (simp del: call.simps)
qed

section \<open>The contract of the Valkey repository\<close>

text \<open>
  Claim C5. While the store answers: after \<open>ban(x)\<close>, repeated any number \<open>n \<ge> 1\<close> of
  times, the banned set is the one left by a single \<open>ban(x)\<close> and \<open>isBanned(x)\<close> returns
  \<open>True\<close>. Starting from an empty banned set, after any sequence of repository calls,
  \<open>isBanned(y)\<close> returns \<open>False\<close> for every \<open>y\<close> whose lower-cased form was never
  given to \<open>ban\<close>. And \<open>isBanned\<close> leaves every set of the store as it was, whether the
  store answers or not.
\<close>

theorem ban_then_isBanned:
  "(0 < n \<and> answered (Suc n) (faults st) \<longrightarrow>
      sets (calls (Valkey_repository this) (replicate n (Ban x)) st) =
        sets (snd (Valkey_ban this x st)) \<and>
      fst (Valkey_isBanned this x
            (calls (Valkey_repository this) (replicate n (Ban x)) st)) = Inr True) \<and>
   (sets st (setKey this) = [] \<and> toLowerCase y \<notin> toLowerCase ` {e. Ban e \<in> set cs} \<and>
    answered 1 (faults (calls (Valkey_repository this) cs st)) \<longrightarrow>
      fst (Valkey_isBanned this y (calls (Valkey_repository this) cs st)) = Inr False) \<and>
   sets (snd (Valkey_isBanned this y st)) = sets st"
proof (intro conjI impI)
  assume h: "0 < n \<and> answered (Suc n) (faults st)"
  then obtain m where n: "n = Suc m" by (cases n) auto
  let ?st1 = "snd (Valkey_ban this x st)"
  from h n have a: "answered (Suc (Suc m)) (faults st)" by simp
  have st1: "?st1 = st\<lparr>faults := tl (faults st),
      sets := (sets st)(setKey this :=
        (if toLowerCase x \<in> set (sets st (setKey this)) then sets st (setKey this)
         else sets st (setKey this) @ [toLowerCase x]))\<rparr>"
    by (simp add: Valkey_ban_answered [OF a])
  have member: "toLowerCase x \<in> set (sets ?st1 (setKey this))"
    by (simp only: st1) simp
  from a have "answered (Suc m) (faults ?st1)" by (simp only: st1) (simp add: answered_tl)
  then have a1: "answered m (faults ?st1)" and "answered 1 (drop m (faults ?st1))"
    using answered_drop [of m 1 "faults ?st1"] by (simp_all add: answered_Suc)
  from ban_repeat_answered [OF a1 member]
  have rep: "sets (calls (Valkey_repository this) (replicate m (Ban x)) ?st1) = sets ?st1"
    and "faults (calls (Valkey_repository this) (replicate m (Ban x)) ?st1) =
      drop m (faults ?st1)"
    by simp_all
  with \<open>answered 1 (drop m (faults ?st1))\<close>
  have a2: "answered (Suc 0) (faults (calls (Valkey_repository this) (replicate m (Ban x)) ?st1))"
    by simp
  have calls: "calls (Valkey_repository this) (replicate n (Ban x)) st =
      calls (Valkey_repository this) (replicate m (Ban x)) ?st1"
    by (simp add: n Valkey_repository_def)
  from rep show "sets (calls (Valkey_repository this) (replicate n (Ban x)) st) = sets ?st1"
    by (simp only: calls)
  from member rep show "fst (Valkey_isBanned this x
      (calls (Valkey_repository this) (replicate n (Ban x)) st)) = Inr True"
    by (simp only: calls) (simp add: Valkey_isBanned_answered [OF a2])
next
  assume h: "sets st (setKey this) = [] \<and> toLowerCase y \<notin> toLowerCase ` {e. Ban e \<in> set cs} \<and>
    answered 1 (faults (calls (Valkey_repository this) cs st))"
  then have a: "answered (Suc 0) (faults (calls (Valkey_repository this) cs st))" by simp
  from h calls_members [of this cs st]
  have "toLowerCase y \<notin> set (sets (calls (Valkey_repository this) cs st) (setKey this))"
    by auto
  then show "fst (Valkey_isBanned this y (calls (Valkey_repository this) cs st)) = Inr False"
    by (simp add: Valkey_isBanned_answered [OF a])
next
  show "sets (snd (Valkey_isBanned this y st)) = sets st" by (rule sets_Valkey_isBanned)
qed

theorem ban_then_isBanned_witness:
  "fst (Valkey_isBanned default_repository ''spam@example.com''
         (calls (Valkey_repository default_repository)
            [Ban ''spam@example.com'', Ban ''spam@example.com''] empty_store)) = Inr True \<and>
   fst (Valkey_isBanned default_repository ''user@example.com''
         (calls (Valkey_repository default_repository)
            [Ban ''spam@example.com'', Unban ''spam@example.com'', Clear] empty_store)) =
     Inr False"
proof -
  have 1: "0 < (2::nat) \<and> answered (Suc 2) (faults empty_store)"
    by (simp add: empty_store_def answered_Nil)
  have 2: "sets empty_store (setKey default_repository) = [] \<and>
      toLowerCase ''user@example.com'' \<notin> toLowerCase `
        {e. Ban e \<in> set [Ban ''spam@example.com'', Unban ''spam@example.com'', Clear]} \<and>
      answered 1 (faults (calls (Valkey_repository default_repository)
        [Ban ''spam@example.com'', Unban ''spam@example.com'', Clear] empty_store))"
    by (simp add: Valkey_repository_def Valkey_ban_def Valkey_unban_def Valkey_clear_def
        async_defs store_defs concrete_defs)
  have 3: "replicate 2 (Ban ''spam@example.com'') =
      [Ban ''spam@example.com'', Ban ''spam@example.com'']"
    by (simp add: numeral_2_eq_2)
  from ban_then_isBanned [where n = 2 and st = empty_store and this = default_repository
        and x = "''spam@example.com''", THEN conjunct1, rule_format, OF 1]
    ban_then_isBanned [where st = empty_store and this = default_repository
        and y = "''user@example.com''", THEN conjunct2, THEN conjunct1, rule_format, OF 2]
  show ?thesis by (simp only: 3)
qed

text \<open>
  Claim C6. While the store answers: after \<open>ban(x)\<close> followed by \<open>unban(x)\<close>,
  \<open>isBanned(x)\<close> returns \<open>False\<close>; and \<open>unban(x)\<close> resolves without an error whether or
  not \<open>x\<close> is a member, leaving every set as it was when \<open>x\<close> is not a member.
\<close>

theorem ban_unban_isBanned:
  "(answered 3 (faults st) \<longrightarrow>
      fst (Valkey_isBanned this x
            (calls (Valkey_repository this) [Ban x, Unban x] st)) = Inr False) \<and>
   (answered 1 (faults st) \<longrightarrow>
      fst (Valkey_unban this x st) = Inr () \<and>
      (toLowerCase x \<notin> set (sets st (setKey this)) \<longrightarrow>
         sets (snd (Valkey_unban this x st)) = sets st))"
proof (intro conjI impI)
  assume "answered 3 (faults st)"
  then have a: "answered (Suc (Suc (Suc 0))) (faults st)" by (simp add: numeral_3_eq_3)
  let ?st1 = "snd (Valkey_ban this x st)"
  let ?st2 = "snd (Valkey_unban this x ?st1)"
  have st1: "faults ?st1 = tl (faults st)" by (simp add: Valkey_ban_answered [OF a])
  from a have a1: "answered (Suc (Suc 0)) (faults ?st1)"
    by (simp only: st1) (rule answered_tl)
  have st2: "faults ?st2 = tl (faults ?st1)"
    "sets ?st2 (setKey this) = filter (\<lambda>m. m \<noteq> toLowerCase x) (sets ?st1 (setKey this))"
    by (simp_all add: Valkey_unban_answered [OF a1])
  from a1 have a2: "answered (Suc 0) (faults ?st2)"
    by (simp only: st2) (rule answered_tl)
  have "calls (Valkey_repository this) [Ban x, Unban x] st = ?st2"
    by (simp add: Valkey_repository_def)
  then show "fst (Valkey_isBanned this x
      (calls (Valkey_repository this) [Ban x, Unban x] st)) = Inr False"
    by (simp add: Valkey_isBanned_answered [OF a2] st2)
next
  assume "answered 1 (faults st)"
  then have a: "answered (Suc 0) (faults st)" by simp
  show "fst (Valkey_unban this x st) = Inr ()" by (simp add: Valkey_unban_answered [OF a])
next
  assume "answered 1 (faults st)" and no: "toLowerCase x \<notin> set (sets st (setKey this))"
  then have a: "answered (Suc 0) (faults st)" by simp
  from no have "filter (\<lambda>m. m \<noteq> toLowerCase x) (sets st (setKey this)) = sets st (setKey this)"
    by (auto simp add: filter_id_conv)
  then show "sets (snd (Valkey_unban this x st)) = sets st"
    by (simp add: Valkey_unban_answered [OF a])
qed

theorem ban_unban_isBanned_witness:
  "fst (Valkey_isBanned default_repository ''spammer@example.com''
         (calls (Valkey_repository default_repository)
            [Ban ''spammer@example.com'', Unban ''spammer@example.com''] empty_store)) =
     Inr False \<and>
   fst (Valkey_unban default_repository ''nonexistent@example.com'' empty_store) = Inr () \<and>
   sets (snd (Valkey_unban default_repository ''nonexistent@example.com'' empty_store)) =
     sets empty_store"
proof -
  have 1: "answered 3 (faults empty_store)"
    by (simp add: empty_store_def answered_Nil)
  have 2: "answered 1 (faults empty_store)"
    by (simp add: empty_store_def answered_Nil)
  have 3: "toLowerCase ''nonexistent@example.com'' \<notin>
      set (sets empty_store (setKey default_repository))"
    by (simp add: empty_store_def)
  note unban = ban_unban_isBanned [where st = empty_store and this = default_repository
      and x = "''nonexistent@example.com''", THEN conjunct2, rule_format, OF 2]
  from ban_unban_isBanned [where st = empty_store and this = default_repository
        and x = "''spammer@example.com''", THEN conjunct1, rule_format, OF 1]
    unban [THEN conjunct1] unban [THEN conjunct2, rule_format, OF 3]
  show ?thesis by (simp only: simp_thms)
qed

text \<open>
  Claim C7. While the store answers: on a banned set whose members are lower-cased,
  \<open>getAllBanned\<close> returns the members themselves, each once; a banned set that was
  empty keeps its members lower-cased through any sequence of repository calls.
  Immediately after \<open>clear\<close>, \<open>getAllBanned\<close> returns the empty list. After \<open>clear\<close> and
  the banning of the addresses \<open>xs\<close>, in any case variants and any number of times each,
  \<open>getAllBanned\<close> returns without duplicates the lower-cased forms of \<open>xs\<close>; when these
  are two distinct addresses, it returns exactly 2 members.
\<close>

theorem getAllBanned_members:
  "(lower_cased (sets st (setKey this)) \<and> answered 1 (faults st) \<longrightarrow>
      fst (Valkey_getAllBanned this st) = Inr (sets st (setKey this))) \<and>
   (sets st (setKey this) = [] \<longrightarrow>
      lower_cased (sets (calls (Valkey_repository this) cs st) (setKey this))) \<and>
   (answered 2 (faults st) \<longrightarrow>
      fst (Valkey_getAllBanned this (snd (Valkey_clear this st))) = Inr []) \<and>
   (answered (length xs + 2) (faults st) \<longrightarrow>
      (\<exists>r. fst (Valkey_getAllBanned this
                 (calls (Valkey_repository this) (Clear # map Ban xs) st)) = Inr r \<and>
           distinct r \<and> set r = toLowerCase ` set xs \<and>
           (toLowerCase a \<noteq> toLowerCase b \<and>
            toLowerCase ` set xs = {toLowerCase a, toLowerCase b} \<longrightarrow> length r = 2)))"
proof (intro conjI impI)
  assume h: "lower_cased (sets st (setKey this)) \<and> answered 1 (faults st)"
  then have a: "answered (Suc 0) (faults st)" by simp
  from h have "map toLowerCase (sets st (setKey this)) = sets st (setKey this)"
    by (simp add: lower_cased_def list_all_iff map_idI)
  then show "fst (Valkey_getAllBanned this st) = Inr (sets st (setKey this))"
    by (simp add: Valkey_getAllBanned_answered [OF a])
next
  assume "sets st (setKey this) = []"
  then have "lower_cased (sets st (setKey this))" by (simp add: lower_cased_def)
  then show "lower_cased (sets (calls (Valkey_repository this) cs st) (setKey this))"
    by (rule calls_lower_cased)
next
  assume "answered 2 (faults st)"
  then have a: "answered (Suc (Suc 0)) (faults st)" by (simp add: numeral_2_eq_2)
  have "faults (snd (Valkey_clear this st)) = tl (faults st)"
    by (simp add: Valkey_clear_answered [OF a])
  with a have a1: "answered (Suc 0) (faults (snd (Valkey_clear this st)))"
    by (simp add: answered_tl)
  show "fst (Valkey_getAllBanned this (snd (Valkey_clear this st))) = Inr []"
    by (simp add: Valkey_getAllBanned_answered [OF a1])
      (simp add: Valkey_clear_answered [OF a])
next
  assume "answered (length xs + 2) (faults st)"
  then have a: "answered (Suc (length xs + 1)) (faults st)" by simp
  let ?st1 = "snd (Valkey_clear this st)"
  let ?st2 = "calls (Valkey_repository this) (map Ban xs) ?st1"
  have st1: "?st1 = st\<lparr>faults := tl (faults st), sets := (sets st)(setKey this := [])\<rparr>"
    by (simp add: Valkey_clear_answered [OF a])
  from a have "answered (length xs + 1) (faults ?st1)"
    by (simp only: st1) (simp add: answered_tl)
  then have a1: "answered (length xs) (faults ?st1)"
    and a2: "answered 1 (drop (length xs) (faults ?st1))"
    using answered_drop [of "length xs" 1 "faults ?st1"] by (simp_all add: answered_Suc)
  have empty: "sets ?st1 (setKey this) = []" by (simp only: st1) simp
  then have "distinct (sets ?st1 (setKey this))" by simp
  with a1 have "distinct (sets ?st2 (setKey this)) \<and>
      set (sets ?st2 (setKey this)) = set (sets ?st1 (setKey this)) \<union> toLowerCase ` set xs \<and>
      faults ?st2 = drop (length xs) (faults ?st1)"
    by (rule ban_all_answered)
  with empty a2 have d: "distinct (sets ?st2 (setKey this))"
    and m: "set (sets ?st2 (setKey this)) = toLowerCase ` set xs"
    and a3: "answered (Suc 0) (faults ?st2)"
    by simp_all
  have "lower_cased (sets ?st1 (setKey this))" by (simp add: empty lower_cased_def)
  then have "lower_cased (sets ?st2 (setKey this))" by (rule calls_lower_cased)
  then have low: "map toLowerCase (sets ?st2 (setKey this)) = sets ?st2 (setKey this)"
    by (simp add: lower_cased_def list_all_iff map_idI)
  have calls: "calls (Valkey_repository this) (Clear # map Ban xs) st = ?st2"
    by (simp add: Valkey_repository_def)
  have two: "length (sets ?st2 (setKey this)) = 2"
    if "toLowerCase a \<noteq> toLowerCase b \<and> toLowerCase ` set xs = {toLowerCase a, toLowerCase b}"
  proof -
    from d have "length (sets ?st2 (setKey this)) = card (set (sets ?st2 (setKey this)))"
      by (simp add: distinct_card)
    with m that show ?thesis by simp
  qed
  have "fst (Valkey_getAllBanned this ?st2) = Inr (sets ?st2 (setKey this))"
    by (simp add: Valkey_getAllBanned_answered [OF a3] low)
  with d m two show "\<exists>r. fst (Valkey_getAllBanned this
        (calls (Valkey_repository this) (Clear # map Ban xs) st)) = Inr r \<and>
      distinct r \<and> set r = toLowerCase ` set xs \<and>
      (toLowerCase a \<noteq> toLowerCase b \<and>
       toLowerCase ` set xs = {toLowerCase a, toLowerCase b} \<longrightarrow> length r = 2)"
    by (simp only: calls) blast
qed

theorem getAllBanned_members_witness:
  "(\<exists>r. fst (Valkey_getAllBanned default_repository
            (calls (Valkey_repository default_repository)
               (Clear # map Ban [''Spam1@Example.COM'', ''spam2@example.com'',
                  ''SPAM1@example.com'']) empty_store)) = Inr r \<and>
        distinct r \<and> length r = 2) \<and>
   fst (Valkey_getAllBanned default_repository
         (snd (Valkey_clear default_repository empty_store))) = Inr []"
proof -
  let ?xs = "[''Spam1@Example.COM'', ''spam2@example.com'', ''SPAM1@example.com'']"
  have 1: "answered (length ?xs + 2) (faults empty_store)"
    by (simp add: empty_store_def answered_Nil)
  have lower: "toLowerCase ''Spam1@Example.COM'' = ''spam1@example.com''"
    "toLowerCase ''SPAM1@example.com'' = ''spam1@example.com''"
    "toLowerCase ''spam1@example.com'' = ''spam1@example.com''"
    "toLowerCase ''spam2@example.com'' = ''spam2@example.com''"
    by code_simp+
  have 2: "toLowerCase ''spam1@example.com'' \<noteq> toLowerCase ''spam2@example.com'' \<and>
      toLowerCase ` set ?xs =
        {toLowerCase ''spam1@example.com'', toLowerCase ''spam2@example.com''}"
    by (auto simp add: lower)
  have 3: "answered 2 (faults empty_store)"
    by (simp add: empty_store_def answered_Nil)
  from getAllBanned_members [where st = empty_store and this = default_repository
      and xs = ?xs and a = "''spam1@example.com''" and b = "''spam2@example.com''",
      THEN conjunct2, THEN conjunct2, THEN conjunct2, rule_format, OF 1]
  obtain r where r: "fst (Valkey_getAllBanned default_repository
      (calls (Valkey_repository default_repository) (Clear # map Ban ?xs) empty_store)) = Inr r"
    "distinct r"
    and two: "toLowerCase ''spam1@example.com'' \<noteq> toLowerCase ''spam2@example.com'' \<and>
      toLowerCase ` set ?xs =
        {toLowerCase ''spam1@example.com'', toLowerCase ''spam2@example.com''} \<longrightarrow>
      length r = 2"
    by blast
  from two 2 have "length r = 2" by blast
  with r getAllBanned_members [where st = empty_store and this = default_repository,
      THEN conjunct2, THEN conjunct2, THEN conjunct1, rule_format, OF 3]
  show ?thesis by blast
qed

text \<open>
  Claim C3, as amended. The operations that take an email, \<open>isBanned\<close>, \<open>ban\<close> and
  \<open>unban\<close>, lower-case it and do not trim it before they touch the store: each behaves
  on \<open>e\<close> as it does on the lower-cased \<open>e\<close>, in its result and in the state it leaves
  (\<open>getAllBanned\<close> and \<open>clear\<close> take no email). And a banned set whose members are
  lower-cased, an empty one among them, keeps its members lower-cased through any
  sequence of repository calls.
\<close>

theorem repository_lower_cases:
  "Valkey_isBanned this e = Valkey_isBanned this (toLowerCase e) \<and>
   Valkey_ban this e = Valkey_ban this (toLowerCase e) \<and>
   Valkey_unban this e = Valkey_unban this (toLowerCase e) \<and>
   (lower_cased (sets st (setKey this)) \<longrightarrow>
      lower_cased (sets (calls (Valkey_repository this) cs st) (setKey this)))"
  by (simp add: Valkey_isBanned_def Valkey_ban_def Valkey_unban_def toLowerCase_idem
      calls_lower_cased)

theorem repository_lower_cases_witness:
  "lower_cased (sets (calls (Valkey_repository default_repository)
      [Ban ''Spam@Example.COM'', Ban ''b@c.d'', Unban ''B@C.D'', IsBanned ''x@y.z'']
      empty_store) (setKey default_repository))"
proof -
  have "lower_cased (sets empty_store (setKey default_repository))"
    by (simp add: empty_store_def lower_cased_def)
  with repository_lower_cases [where st = empty_store and this = default_repository]
  show ?thesis by blast
qed

text \<open>
  Claim C3, as stated, fails: the repository does not trim. After \<open>ban\<close> of an address,
  \<open>isBanned\<close> of the same address with surrounding white space returns \<open>False\<close>, while
  \<open>isBanned\<close> of its trimmed, lower-cased form returns \<open>True\<close>; and \<open>ban\<close> of an
  address with surrounding white space stores a member that is not trimmed.
\<close>

theorem repository_trim_counterexample:
  "fst (Valkey_isBanned default_repository '' a@b.c ''
         (snd (Valkey_ban default_repository ''a@b.c'' empty_store))) = Inr False \<and>
   fst (Valkey_isBanned default_repository (toLowerCase (trim '' a@b.c ''))
         (snd (Valkey_ban default_repository ''a@b.c'' empty_store))) = Inr True \<and>
   sets (snd (Valkey_ban default_repository '' A@b.c '' empty_store))
     (setKey default_repository) = ['' a@b.c ''] \<and>
   trim '' a@b.c '' \<noteq> '' a@b.c ''"
proof -
  have t: "trim '' a@b.c '' = ''a@b.c''" by code_simp
  have "fst (Valkey_isBanned default_repository '' a@b.c ''
         (snd (Valkey_ban default_repository ''a@b.c'' empty_store))) = Inr False"
    by (simp add: Valkey_isBanned_eq Valkey_ban_def async_defs store_defs concrete_defs)
  moreover have "fst (Valkey_isBanned default_repository (toLowerCase (trim '' a@b.c ''))
         (snd (Valkey_ban default_repository ''a@b.c'' empty_store))) = Inr True"
    by (simp only: t)
      (simp add: Valkey_isBanned_eq Valkey_ban_def async_defs store_defs concrete_defs)
  moreover have "sets (snd (Valkey_ban default_repository '' A@b.c '' empty_store))
     (setKey default_repository) = ['' a@b.c '']"
    by (simp add: Valkey_ban_def async_defs store_defs concrete_defs)
  moreover have "trim '' a@b.c '' \<noteq> '' a@b.c ''" by (simp only: t) simp
  ultimately show ?thesis by blast
qed

section \<open>End to end\<close>

text \<open>
  Claim C9. While the store answers: after \<open>ban("Attacker@Example.COM")\<close>, the adapter's
  \<open>isBlocked("attacker@example.com")\<close> returns \<open>True\<close> and \<open>createWithAntiSpam\<close> of
  \<open>"attacker@example.com"\<close> through the adapter fails with \<open>Blocked\<close>. The plain \<open>create\<close>
  of the same string succeeds: it is a function of the string alone, and takes neither a
  gate nor a store.
\<close>

theorem end_to_end_attacker:
  "(answered 2 (faults st) \<longrightarrow>
      fst (isBlocked (Valkey_repository this) ''attacker@example.com''
            \<lparr>console = c, repository = snd (Valkey_ban this ''Attacker@Example.COM'' st)\<rparr>) =
        Inr True \<and>
      fst (createWithAntiSpam ''attacker@example.com'' (isBlocked (Valkey_repository this))
            \<lparr>console = c, repository = snd (Valkey_ban this ''Attacker@Example.COM'' st)\<rparr>) =
        Inl (Blocked ''attacker@example.com'')) \<and>
   create ''attacker@example.com'' = Inr (Email ''attacker@example.com'')"
proof (intro conjI impI)
  assume "answered 2 (faults st)"
  then have a: "answered (Suc (Suc 0)) (faults st)" by (simp add: numeral_2_eq_2)
  have l1: "toLowerCase ''Attacker@Example.COM'' = ''attacker@example.com''" by code_simp
  have l2: "toLowerCase ''attacker@example.com'' = ''attacker@example.com''" by code_simp
  let ?st1 = "snd (Valkey_ban this ''Attacker@Example.COM'' st)"
  have st1: "faults ?st1 = tl (faults st)"
    "''attacker@example.com'' \<in> set (sets ?st1 (setKey this))"
    by (simp_all add: Valkey_ban_answered [OF a] l1)
  from a have a1: "answered (Suc 0) (faults ?st1)"
    by (simp only: st1) (rule answered_tl)
  have banned: "fst (Valkey_isBanned this ''attacker@example.com'' ?st1) = Inr True"
    by (simp add: Valkey_isBanned_answered [OF a1] l2 st1)
  then show blocked: "fst (isBlocked (Valkey_repository this) ''attacker@example.com''
      \<lparr>console = c, repository = ?st1\<rparr>) = Inr True"
    by (cases "Valkey_isBanned this ''attacker@example.com'' ?st1")
      (simp add: isBlocked_def async_defs Valkey_repository_def)
  then show "fst (createWithAntiSpam ''attacker@example.com''
      (isBlocked (Valkey_repository this)) \<lparr>console = c, repository = ?st1\<rparr>) =
      Inl (Blocked ''attacker@example.com'')"
    by (cases "isBlocked (Valkey_repository this) ''attacker@example.com''
        \<lparr>console = c, repository = ?st1\<rparr>")
      (simp add: createWithAntiSpam_def async_defs)
next
  show "create ''attacker@example.com'' = Inr (Email ''attacker@example.com'')"
    by code_simp
qed

theorem end_to_end_attacker_witness:
  "fst (isBlocked (Valkey_repository default_repository) ''attacker@example.com''
         \<lparr>console = [],
          repository = snd (Valkey_ban default_repository ''Attacker@Example.COM'' empty_store)\<rparr>) =
     Inr True \<and>
   fst (createWithAntiSpam ''attacker@example.com''
         (isBlocked (Valkey_repository default_repository))
         \<lparr>console = [],
          repository = snd (Valkey_ban default_repository ''Attacker@Example.COM'' empty_store)\<rparr>) =
     Inl (Blocked ''attacker@example.com'')"
proof -
  have 1: "answered 2 (faults empty_store)"
    by (simp add: empty_store_def answered_Nil)
  from end_to_end_attacker [where st = empty_store and this = default_repository
      and c = "[]", THEN conjunct1, rule_format, OF 1]
  show ?thesis .
qed

section \<open>The in-memory repository\<close>

text \<open>
  Claim C10. For every email and every state, \<open>isBanned\<close>, \<open>ban\<close>, \<open>unban\<close> and
  \<open>getAllBanned\<close> of the in-memory repository reject with the error
  \<open>Method not implemented.\<close> and leave the state as it was; \<open>clear\<close> resolves, emptying
  the set. The repository, declared as an implementation of the port, does not keep the
  contract the Valkey repository keeps: after \<open>ban(x)\<close>, \<open>isBanned(x)\<close> does not return
  \<open>True\<close>.
\<close>

theorem in_memory_not_implemented:
  "isBanned InMemory_repository email s = (Inl (Error ''Method not implemented.''), s) \<and>
   ban InMemory_repository email s = (Inl (Error ''Method not implemented.''), s) \<and>
   unban InMemory_repository email s = (Inl (Error ''Method not implemented.''), s) \<and>
   getAllBanned InMemory_repository s = (Inl (Error ''Method not implemented.''), s) \<and>
   clear InMemory_repository s = (Inr (), s\<lparr>bannedEmails := []\<rparr>) \<and>
   fst (isBanned InMemory_repository email (calls InMemory_repository [Ban email] s)) \<noteq>
     Inr True"
  by (simp add: InMemory_repository_def InMemory_isBanned_def InMemory_ban_def
      InMemory_unban_def InMemory_getAllBanned_def InMemory_clear_def async_throw_def)

section \<open>Case variants\<close>

text \<open>On the code units below 256 the operations on the larger alphabet are those of above.\<close>

lemma inj_Latin1: "inj Latin1"
  by (simp add: inj_def)

lemma isWhiteSpace16_Latin1: "isWhiteSpace16 \<circ> Latin1 = isWhiteSpace"
  by (auto simp add: isWhiteSpace16_def)

lemma dropWhile_isWhiteSpace16_Latin1:
  "dropWhile isWhiteSpace16 (map Latin1 s) = map Latin1 (dropWhile isWhiteSpace s)"
  by (simp add: dropWhile_map isWhiteSpace16_Latin1)

lemma trim16_Latin1: "trim16 (map Latin1 s) = map Latin1 (trim s)"
  by (simp add: trim16_def trim_def dropWhile_isWhiteSpace16_Latin1 rev_map)

lemma toLowerCase_from_Latin1:
  "toLowerCase_from pre (map Latin1 s) = map Latin1 (toLowerCase s)"
  by (induction s arbitrary: pre) (simp_all add: toLowerCase_def toLowerCase_unit_def)

lemma toLowerCase16_Latin1: "toLowerCase16 (map Latin1 s) = map Latin1 (toLowerCase s)"
  by (simp add: toLowerCase16_def toLowerCase_from_Latin1)

lemma includes16_Latin1: "includes16 (map Latin1 s) (map Latin1 sub) = includes_str s sub"
proof (induction s)
  case Nil
  then show ?case by simp
next
  case (Cons c cs)
  have t: "take (length sub) (Latin1 c # map Latin1 cs) =
      map Latin1 (take (length sub) (c # cs))"
    by (simp only: list.map(2) [symmetric] take_map)
  have "take (length sub) (Latin1 c # map Latin1 cs) = map Latin1 sub \<longleftrightarrow>
      take (length sub) (c # cs) = sub"
    unfolding t by (rule inj_map_eq_map [OF inj_Latin1])
  with Cons.IH show ?case by simp
qed

lemma test16_Latin1: "test16 r (map Latin1 s) = test r s"
proof (induction r s rule: test.induct)
  case (5 p r x xs)
  have "in_class16 p (Latin1 x) = in_class p x"
    by (cases p) (simp add: isWhiteSpace16_def)
  with 5 show ?case by simp
qed simp_all

lemma isValid16_Latin1: "isValid16 (map Latin1 s) = isValid s"
  by (simp only: isValid16_def isValid_def hasConsecutiveDots16_def hasConsecutiveDots_def
      includes16_Latin1 test16_Latin1 length_map)

lemma Email_new16_Latin1:
  "Email_new16 (map Latin1 s) =
     (case Email_new s of
        Inl e \<Rightarrow> Inl (InvalidFormat16 (map Latin1 s))
      | Inr v \<Rightarrow> Inr (Email16 (map Latin1 (getValue v))))"
  by (simp add: Email_new16_def Email_new_def trim16_Latin1 isValid16_Latin1
      toLowerCase16_Latin1)

















section \<open>The anti-spam adapter never fails\<close>

text \<open>
  Claim C1. For every repository, every email and every state of the process, \<open>isBlocked\<close>
  resolves (it never rejects). When the repository's \<open>isBanned\<close> resolves with a boolean,
  \<open>isBlocked\<close> resolves with that boolean and writes nothing to the console. When
  \<open>isBanned\<close> rejects with an error, \<open>isBlocked\<close> writes that error to the console and
  resolves with \<open>False\<close>.
\<close>

theorem isBlocked_fail_open:
  "(\<exists>b w'. isBlocked repo email w = (Inr b, w')) \<and>
   (\<forall>result s'. isBanned repo email (repository w) = (Inr result, s') \<longrightarrow>
      isBlocked repo email w = (Inr result, w\<lparr>repository := s'\<rparr>)) \<and>
   (\<forall>e s'. isBanned repo email (repository w) = (Inl e, s') \<longrightarrow>
      isBlocked repo email w =
        (Inr False,
         w\<lparr>repository := s',
           console := console w @ [(''Failed to check banned email list:'', e)]\<rparr>))"
  by (auto simp add: isBlocked_def try_catch_def in_repository_def async_bind_def
      console_error_def async_return_def split: prod.splits sum.splits)

theorem isBlocked_fail_open_witness:
  "isBlocked (Valkey_repository (ValkeyBannedEmailRepository_new None)) ''user@example.com''
     \<lparr>console = [],
      repository = \<lparr>faults = [Some (Error ''StoreUnavailable'')], sets = (\<lambda>k. [])\<rparr>\<rparr> =
     (Inr False,
      \<lparr>console = [(''Failed to check banned email list:'', Error ''StoreUnavailable'')],
       repository = \<lparr>faults = [], sets = (\<lambda>k. [])\<rparr>\<rparr>) \<and>
   isBlocked (Valkey_repository (ValkeyBannedEmailRepository_new None)) ''user@example.com''
     \<lparr>console = [],
      repository = \<lparr>faults = [], sets = (\<lambda>k. [''user@example.com''])\<rparr>\<rparr> =
     (Inr True,
      \<lparr>console = [],
       repository = \<lparr>faults = [], sets = (\<lambda>k. [''user@example.com''])\<rparr>\<rparr>)"
proof -
  let ?repo = "Valkey_repository (ValkeyBannedEmailRepository_new None)"
  let ?down = "\<lparr>faults = [Some (Error ''StoreUnavailable'')], sets = (\<lambda>k. [])\<rparr>"
  let ?up = "\<lparr>faults = [], sets = (\<lambda>k. [''user@example.com''])\<rparr>"
  have rejected: "isBanned ?repo ''user@example.com'' (repository \<lparr>console = [], repository = ?down\<rparr>) =
      (Inl (Error ''StoreUnavailable''), \<lparr>faults = [], sets = (\<lambda>k. [])\<rparr>)"
    by (simp add: Valkey_repository_def Valkey_isBanned_eq sismember_def round_trip_def)
  have resolved: "isBanned ?repo ''user@example.com'' (repository \<lparr>console = [], repository = ?up\<rparr>) =
      (Inr True, ?up)"
    by (simp add: Valkey_repository_def Valkey_isBanned_eq sismember_def round_trip_def
        toLowerCase_def toLowerCase_char_def)
  from isBlocked_fail_open [THEN conjunct2, THEN conjunct2, rule_format, OF rejected]
    isBlocked_fail_open [THEN conjunct2, THEN conjunct1, rule_format, OF resolved]
  show ?thesis by simp
qed

end
